theory Spec2Isabelle
  imports Main
begin

section \<open>The upgrade script (scripts/upgrade.ts)\<close>

text \<open>
  The script holds a constant array of five steps and runs them in order. Each step
  has a name, a shell command (with an optional working directory) and a flag saying
  whether a failure of the step aborts the run. The command is run with
  \<^verbatim>\<open>.nothrow()\<close>, so a failing command is reported through its exit code
  and not through an exception.
\<close>

record upgrade_step =
  step_name :: string
  command :: string
  cwd :: "string option"
  critical :: bool

definition steps :: "upgrade_step list" where
  "steps =
    [\<lparr>step_name = ''Next.js Upgrade'', command = ''bunx @next/codemod@latest upgrade'',
        cwd = Some ''apps/web'', critical = True\<rparr>,
     \<lparr>step_name = ''shadcn/ui Components'',
        command = ''bunx shadcn@latest add --all --overwrite'',
        cwd = Some ''packages/ui'', critical = True\<rparr>,
     \<lparr>step_name = ''Dependency Update'', command = ''bun update'',
        cwd = None, critical = True\<rparr>,
     \<lparr>step_name = ''Ultracite Fix'', command = ''bun run fix'',
        cwd = None, critical = False\<rparr>,
     \<lparr>step_name = ''Type Check'', command = ''bunx tsc --noEmit'',
        cwd = None, critical = False\<rparr>]"

text \<open>
  The shell is the environment of the script: it gives the exit code of a step's
  command. Every step is run at most once and always after the same predecessors, so
  a function of the step describes every possible run.
\<close>

type_synonym shell = "upgrade_step \<Rightarrow> int"

text \<open>
  The \<^verbatim>\<open>for (const step of steps)\<close> loop, with the mutable variable
  \<^verbatim>\<open>failed\<close> and the list of the steps whose command has been run as
  explicit state. The result is the exit code of the process together with the names
  of the steps that were run, in order: \<^verbatim>\<open>process.exit(1)\<close> inside the
  loop ends the run at once, after the loop the code is 1 when \<^verbatim>\<open>failed\<close>
  is set, and a script that reaches its end exits with code 0.
\<close>

fun run_steps :: "shell \<Rightarrow> upgrade_step list \<Rightarrow> bool \<Rightarrow> string list \<Rightarrow> int \<times> string list" where
  "run_steps sh [] failed trail = ((if failed then 1 else 0), trail)"
| "run_steps sh (step # rest) failed trail =
     (let exitCode = sh step in
      if exitCode \<noteq> 0 then
        (if critical step then (1, trail @ [step_name step])
         else run_steps sh rest True (trail @ [step_name step]))
      else run_steps sh rest failed (trail @ [step_name step]))"

definition upgrade :: "shell \<Rightarrow> int \<times> string list" where
  "upgrade sh = run_steps sh steps False []"

subsection \<open>Properties of the loop\<close>

lemma run_steps_no_critical_failure:
  "(\<And>s. s \<in> set ss \<Longrightarrow> critical s \<Longrightarrow> sh s = 0) \<Longrightarrow>
   run_steps sh ss failed trail =
     ((if failed \<or> (\<exists>s \<in> set ss. sh s \<noteq> 0) then 1 else 0), trail @ map step_name ss)"
proof (induction ss arbitrary: failed trail)
  case Nil
  show ?case by simp
next
  case (Cons step rest)
  have rest_ok: "\<And>s. s \<in> set rest \<Longrightarrow> critical s \<Longrightarrow> sh s = 0"
    using Cons.prems by simp
  show ?case
  proof (cases "sh step = 0")
    case True
    then show ?thesis
      using Cons.IH [OF rest_ok, of failed "trail @ [step_name step]"] by simp
  next
    case False
    then have "\<not> critical step"
      using Cons.prems [of step] by auto
    with False show ?thesis
      using Cons.IH [OF rest_ok, of True "trail @ [step_name step]"] by auto
  qed
qed

lemma run_steps_critical_failure:
  assumes "\<And>p. p \<in> set pre \<Longrightarrow> critical p \<Longrightarrow> sh p = 0"
    and "critical s" and "sh s \<noteq> 0"
  shows "run_steps sh (pre @ s # post) failed trail = (1, trail @ map step_name (pre @ [s]))"
  using assms(1)
proof (induction pre arbitrary: failed trail)
  case Nil
  show ?case using assms(2,3) by simp
next
  case (Cons step rest)
  have rest_ok: "\<And>p. p \<in> set rest \<Longrightarrow> critical p \<Longrightarrow> sh p = 0"
    using Cons.prems by simp
  show ?case
  proof (cases "sh step = 0")
    case True
    then show ?thesis
      using Cons.IH [OF rest_ok, of failed "trail @ [step_name step]"] by simp
  next
    case False
    then have "\<not> critical step"
      using Cons.prems [of step] by auto
    with False show ?thesis
      using Cons.IH [OF rest_ok, of True "trail @ [step_name step]"] by simp
  qed
qed

text \<open>
  A failing critical step anywhere in the list: the run stops at the first such step,
  which is this one or an earlier one.
\<close>

lemma run_steps_stops_before:
  assumes "critical s" and "sh s \<noteq> 0"
  shows "\<exists>ds. run_steps sh (pre @ s # post) failed trail = (1, trail @ map step_name ds)
           \<and> set ds \<subseteq> set (pre @ [s])
           \<and> ((\<forall>p \<in> set pre. critical p \<longrightarrow> sh p = 0) \<longrightarrow> ds = pre @ [s])"
proof (cases "\<exists>p \<in> set pre. critical p \<and> sh p \<noteq> 0")
  case True
  then obtain a p b where split: "pre = a @ p # b" and p: "critical p \<and> sh p \<noteq> 0"
    and first: "\<forall>q \<in> set a. \<not> (critical q \<and> sh q \<noteq> 0)"
    using split_list_first_prop [of pre "\<lambda>p. critical p \<and> sh p \<noteq> 0"] by blast
  have "run_steps sh (a @ p # (b @ s # post)) failed trail = (1, trail @ map step_name (a @ [p]))"
    using first p by (intro run_steps_critical_failure) auto
  then have "run_steps sh (pre @ s # post) failed trail = (1, trail @ map step_name (a @ [p]))"
    using split by simp
  moreover have "set (a @ [p]) \<subseteq> set (pre @ [s])"
    using split by auto
  moreover have "\<not> (\<forall>p \<in> set pre. critical p \<longrightarrow> sh p = 0)"
    using True by blast
  ultimately show ?thesis by blast
next
  case False
  then have "run_steps sh (pre @ s # post) failed trail = (1, trail @ map step_name (pre @ [s]))"
    using assms by (intro run_steps_critical_failure) auto
  then show ?thesis by blast
qed

lemma distinct_step_names: "distinct (map step_name steps)"
  by (simp add: steps_def)

text \<open>
  Claim C9. Whenever a step whose critical flag is set exits with a nonzero code, the
  script ends with exit code 1 and none of the steps that follow it in the array is
  run; when it is the first critical step to fail, the steps run are exactly those up
  to and including it, so the exit is immediate.
\<close>

theorem critical_failure_aborts:
  assumes "steps = pre @ s # post" and "critical s" and "sh s \<noteq> 0"
  shows "fst (upgrade sh) = 1
       \<and> (\<forall>later \<in> set post. step_name later \<notin> set (snd (upgrade sh)))
       \<and> ((\<forall>p \<in> set pre. critical p \<longrightarrow> sh p = 0) \<longrightarrow>
            snd (upgrade sh) = map step_name (pre @ [s]))"
proof -
  obtain ds where run: "run_steps sh (pre @ s # post) False [] = (1, [] @ map step_name ds)"
    and sub: "set ds \<subseteq> set (pre @ [s])"
    and exact: "(\<forall>p \<in> set pre. critical p \<longrightarrow> sh p = 0) \<longrightarrow> ds = pre @ [s]"
    using run_steps_stops_before [where s = s and sh = sh and pre = pre and post = post
        and failed = False and trail = "[]"] assms(2,3) by blast
  have up: "upgrade sh = (1, map step_name ds)"
    using run assms(1) by (simp add: upgrade_def)
  have "distinct (map step_name (pre @ s # post))"
    using distinct_step_names assms(1) by simp
  then have disj: "\<And>later. later \<in> set post \<Longrightarrow> step_name later \<notin> step_name ` set (pre @ [s])"
    by (force simp: image_iff)
  have "\<And>later. later \<in> set post \<Longrightarrow> step_name later \<notin> set (map step_name ds)"
    using disj sub by auto
  then show ?thesis
    using up exact by simp
qed

theorem critical_failure_aborts_witness:
  "steps = take 2 steps @ (steps ! 2) # drop 3 steps
   \<and> critical (steps ! 2)
   \<and> (if step_name (steps ! 2) = ''Dependency Update'' then 2 else 0) \<noteq> (0::int)
   \<and> upgrade (\<lambda>st. if step_name st = ''Dependency Update'' then 2 else 0) =
       (1, [''Next.js Upgrade'', ''shadcn/ui Components'', ''Dependency Update''])"
proof -
  let ?sh = "\<lambda>st. if step_name st = ''Dependency Update'' then 2 else (0::int)"
  have h1: "steps = take 2 steps @ (steps ! 2) # drop 3 steps"
    by (simp add: steps_def)
  have h2: "critical (steps ! 2)"
    by (simp add: steps_def)
  have h3: "?sh (steps ! 2) \<noteq> 0"
    by (simp add: steps_def)
  have pre_ok: "\<forall>p \<in> set (take 2 steps). critical p \<longrightarrow> ?sh p = 0"
    by (simp add: steps_def)
  have "fst (upgrade ?sh) = 1
      \<and> snd (upgrade ?sh) = map step_name (take 2 steps @ [steps ! 2])"
    using critical_failure_aborts [where pre = "take 2 steps" and s = "steps ! 2"
        and post = "drop 3 steps" and sh = ?sh] h1 h2 h3 pre_ok by blast
  moreover have "map step_name (take 2 steps @ [steps ! 2]) =
      [''Next.js Upgrade'', ''shadcn/ui Components'', ''Dependency Update'']"
    by (simp add: steps_def)
  ultimately have "upgrade ?sh =
      (1, [''Next.js Upgrade'', ''shadcn/ui Components'', ''Dependency Update''])"
    by (simp add: prod_eq_iff)
  then show ?thesis
    using h1 h2 h3 by blast
qed

lemma run_steps_exit_zero:
  "fst (run_steps sh ss failed trail) = 0 \<longleftrightarrow> \<not> failed \<and> (\<forall>s \<in> set ss. sh s = 0)"
  by (induction ss arbitrary: failed trail) (auto simp: Let_def)

lemma run_steps_exit_code:
  "fst (run_steps sh ss failed trail) = 0 \<or> fst (run_steps sh ss failed trail) = 1"
  by (induction ss arbitrary: failed trail) (auto simp: Let_def)

text \<open>
  Claim C10. The script exits with code 0 exactly when the commands of all five steps
  exit with code 0, and its exit code is otherwise 1. The steps that are not critical
  are Ultracite Fix and Type Check; when no critical step fails, every step of the
  array is run, and a failure among them makes the exit code 1.
\<close>

theorem upgrade_exit_code:
  "length steps = 5
   \<and> map step_name (filter (\<lambda>s. \<not> critical s) steps) = [''Ultracite Fix'', ''Type Check'']
   \<and> (fst (upgrade sh) = 0 \<longleftrightarrow> (\<forall>s \<in> set steps. sh s = 0))
   \<and> (fst (upgrade sh) \<noteq> 0 \<longrightarrow> fst (upgrade sh) = 1)
   \<and> ((\<forall>s \<in> set steps. critical s \<longrightarrow> sh s = 0) \<longrightarrow>
        snd (upgrade sh) = map step_name steps
        \<and> ((\<exists>s \<in> set steps. sh s \<noteq> 0) \<longrightarrow> fst (upgrade sh) = 1))"
proof -
  have "length steps = 5"
    and "map step_name (filter (\<lambda>s. \<not> critical s) steps) = [''Ultracite Fix'', ''Type Check'']"
    by (simp_all add: steps_def)
  moreover have "fst (upgrade sh) = 0 \<longleftrightarrow> (\<forall>s \<in> set steps. sh s = 0)"
    unfolding upgrade_def by (simp add: run_steps_exit_zero)
  moreover have "fst (upgrade sh) \<noteq> 0 \<longrightarrow> fst (upgrade sh) = 1"
    unfolding upgrade_def using run_steps_exit_code [of sh steps False "[]"] by blast
  moreover have "snd (upgrade sh) = map step_name steps
        \<and> ((\<exists>s \<in> set steps. sh s \<noteq> 0) \<longrightarrow> fst (upgrade sh) = 1)"
    if "\<forall>s \<in> set steps. critical s \<longrightarrow> sh s = 0"
    unfolding upgrade_def
    using run_steps_no_critical_failure [of steps sh False "[]"] that by simp
  ultimately show ?thesis by blast
qed

theorem upgrade_exit_code_witness:
  "map (\<lambda>st. if step_name st = ''Ultracite Fix'' then 3 else (0::int)) (filter critical steps)
     = [0, 0, 0]
   \<and> (\<exists>s \<in> set steps. (if step_name s = ''Ultracite Fix'' then 3 else (0::int)) \<noteq> 0)
   \<and> upgrade (\<lambda>st. if step_name st = ''Ultracite Fix'' then 3 else 0) =
       (1, [''Next.js Upgrade'', ''shadcn/ui Components'', ''Dependency Update'',
            ''Ultracite Fix'', ''Type Check''])
   \<and> fst (upgrade (\<lambda>st. 0)) = 0"
proof -
  let ?sh = "\<lambda>st. if step_name st = ''Ultracite Fix'' then 3 else (0::int)"
  have h1: "\<forall>s \<in> set steps. critical s \<longrightarrow> ?sh s = 0"
    by (simp add: steps_def)
  have h2: "\<exists>s \<in> set steps. ?sh s \<noteq> 0"
    by (simp add: steps_def)
  have "snd (upgrade ?sh) = map step_name steps \<and> fst (upgrade ?sh) = 1"
    using upgrade_exit_code [of ?sh] h1 h2 by blast
  moreover have "map step_name steps =
      [''Next.js Upgrade'', ''shadcn/ui Components'', ''Dependency Update'',
       ''Ultracite Fix'', ''Type Check'']"
    by (simp add: steps_def)
  ultimately have a: "upgrade ?sh =
      (1, [''Next.js Upgrade'', ''shadcn/ui Components'', ''Dependency Update'',
           ''Ultracite Fix'', ''Type Check''])"
    by (simp add: prod_eq_iff)
  have b: "fst (upgrade (\<lambda>st. 0)) = 0"
    using upgrade_exit_code [of "\<lambda>st. 0"] by simp
  have c: "map ?sh (filter critical steps) = [0, 0, 0]"
    by (simp add: steps_def)
  show ?thesis
    using c h2 a b by blast
qed

section \<open>The client-side tool generator (toolsFromOpenAPI)\<close>

text \<open>
  The notes of the repository give the generator of the client as TypeScript:
  \<^verbatim>\<open>toolsFromOpenAPI(spec, tokens)\<close> turns the operations of an OpenAPI document
  that carry the x-llm extension into tools, one entry per operation, keyed by the
  operation id. What follows is that function, its \<^verbatim>\<open>execute\<close> closure
  included.
\<close>

subsection \<open>The x-llm extension and OpenAPI operations\<close>

text \<open>
  The extension block of the document root and of an operation, with the fields the
  notes list. Every field of the operation block may be absent.
\<close>

datatype approval = Auto | PerCall

datatype cost_indicator = Free | Credits | Paid

record rate_limit =
  max_calls :: nat
  window :: string

record x_llm_root =
  version :: string
  name :: string
  description :: string
  defaultApproval :: approval

record x_llm_operation =
  enabled :: "bool option"
  approval :: "approval option"
  blanketApprovalAllowed :: "bool option"
  destructive :: "bool option"
  rateLimit :: "rate_limit option"
  hint :: "string option"
  costIndicator :: "cost_indicator option"

type_synonym json_schema = string

text \<open>
  An operation as the generator reads it: \<^verbatim>\<open>op.operationId\<close>,
  \<^verbatim>\<open>op.summary\<close>, \<^verbatim>\<open>op.parameters\<close> and \<^verbatim>\<open>op['x-llm']\<close>,
  together with the HTTP verb and the path under which the document declares it. The
  summary and the extension block are optional in a document; the examples of the notes
  give every exposed operation an operation id.
\<close>

record operation =
  operationId :: string
  http_verb :: string
  path :: string
  summary :: "string option"
  parameters :: json_schema
  x_llm :: "x_llm_operation option"

record openapi_document =
  root_x_llm :: "x_llm_root option"
  entries :: "operation list"

subsection \<open>The generated tools\<close>

datatype error =
    SsrfBlocked | Timeout | NetworkError | TooManyRedirects
  | DiscoveryNotFound | MalformedDocument | UnsupportedAuthScheme | NoLlmExtension
  | UnsupportedSpecVersion | InvalidParams | RateLimited | AuthExpired
  | TypeError

type_synonym tokens = string
type_synonym params = "(string \<times> string) list"
type_synonym response = string

text \<open>What \<^verbatim>\<open>execute\<close> resolves to: \<^verbatim>\<open>{ denied: true }\<close>, or the value
  of \<^verbatim>\<open>fetchEndpoint\<close>.\<close>

datatype outcome = Denied | Fetched response

text \<open>
  The two awaited helpers are not part of the source; they are parameters. Each one
  runs in a state \<open>'s\<close> (whatever the client keeps between calls) and either
  resolves to a value or rejects with an error.
\<close>

type_synonym 's approval_helper = "operation \<Rightarrow> params \<Rightarrow> 's \<Rightarrow> (error + bool) \<times> 's"
type_synonym 's fetch_helper = "operation \<Rightarrow> params \<Rightarrow> tokens \<Rightarrow> 's \<Rightarrow> (error + response) \<times> 's"

definition returned :: "(error + response) \<times> 's \<Rightarrow> (error + outcome) \<times> 's" where
  "returned r = (case r of (Inl e, s) \<Rightarrow> (Inl e, s) | (Inr v, s) \<Rightarrow> (Inr (Fetched v), s))"

text \<open>
  The \<^verbatim>\<open>execute\<close> function of a tool. Reading \<^verbatim>\<open>llmMeta.approval\<close>
  of an operation without an extension block is a TypeError in JavaScript. An awaited
  helper that rejects makes \<^verbatim>\<open>execute\<close> reject with the same error.
\<close>

definition execute ::
  "'s approval_helper \<Rightarrow> 's fetch_helper \<Rightarrow> tokens \<Rightarrow> operation \<Rightarrow> params \<Rightarrow> 's
     \<Rightarrow> (error + outcome) \<times> 's" where
  "execute requestApproval fetchEndpoint tokens op params s =
     (case x_llm op of
        None \<Rightarrow> (Inl TypeError, s)
      | Some llmMeta \<Rightarrow>
          if approval llmMeta = Some PerCall then
            (case requestApproval op params s of
               (Inl e, s') \<Rightarrow> (Inl e, s')
             | (Inr approved, s') \<Rightarrow>
                 if \<not> approved then (Inr Denied, s')
                 else returned (fetchEndpoint op params tokens s'))
          else returned (fetchEndpoint op params tokens s))"


record 's tool =
  tool_description :: string
  tool_parameters :: json_schema
  tool_execute :: "params \<Rightarrow> 's \<Rightarrow> (error + outcome) \<times> 's"

text \<open>
  \<^verbatim>\<open>op.summary + (op['x-llm']?.hint ? `\n${op['x-llm'].hint}` : '')\<close>: an
  absent or empty hint adds nothing, and an absent summary is concatenated as the text
  of \<^verbatim>\<open>undefined\<close>.
\<close>

definition describe :: "operation \<Rightarrow> string" where
  "describe op =
     (case summary op of None \<Rightarrow> ''undefined'' | Some text \<Rightarrow> text) @
       (case x_llm op of
          None \<Rightarrow> []
        | Some llmMeta \<Rightarrow>
            (case hint llmMeta of
               None \<Rightarrow> []
             | Some h \<Rightarrow> if h = [] then [] else CHR 0x0A # h))"

text \<open>\<^verbatim>\<open>Object.fromEntries\<close>: a later entry replaces an earlier one with the
  same key.\<close>

definition fromEntries :: "(string \<times> 'v) list \<Rightarrow> (string \<rightharpoonup> 'v)" where
  "fromEntries es = foldl (\<lambda>m (k, v). m(k \<mapsto> v)) Map.empty es"

text \<open>
  The generator. \<^verbatim>\<open>getOperationsWithXLlm\<close> and \<^verbatim>\<open>jsonSchemaToZod\<close>
  are helpers the source calls and does not define; they are parameters too.
\<close>

definition toolsFromOpenAPI ::
  "(openapi_document \<Rightarrow> operation list) \<Rightarrow> (json_schema \<Rightarrow> json_schema)
     \<Rightarrow> 's approval_helper \<Rightarrow> 's fetch_helper
     \<Rightarrow> openapi_document \<Rightarrow> tokens \<Rightarrow> (string \<rightharpoonup> 's tool)" where
  "toolsFromOpenAPI getOperationsWithXLlm jsonSchemaToZod requestApproval fetchEndpoint spec tokens =
     (let ops = getOperationsWithXLlm spec in
      fromEntries
        (map (\<lambda>op. (operationId op,
                    \<lparr>tool_description = describe op,
                     tool_parameters = jsonSchemaToZod (parameters op),
                     tool_execute = execute requestApproval fetchEndpoint tokens op\<rparr>))
           ops))"

subsection \<open>Approval levels\<close>



subsection \<open>The Spec Parser\<close>

record parsed_spec =
  spec_root :: x_llm_root
  operations :: "operation list"

text \<open>An operation is eligible only if its own extension block sets
  \<^verbatim>\<open>enabled: true\<close>.\<close>

definition eligible :: "operation \<Rightarrow> bool" where
  "eligible op = (case x_llm op of None \<Rightarrow> False | Some llmMeta \<Rightarrow> enabled llmMeta = Some True)"

text \<open>
  Missing operation-level fields inherit the defaults: \<^verbatim>\<open>approval\<close> the
  root's \<^verbatim>\<open>defaultApproval\<close>, \<^verbatim>\<open>blanketApprovalAllowed\<close> and
  \<^verbatim>\<open>destructive\<close> false.
\<close>

definition with_defaults :: "x_llm_root \<Rightarrow> x_llm_operation \<Rightarrow> x_llm_operation" where
  "with_defaults r llmMeta =
     llmMeta\<lparr>approval := Some (case approval llmMeta of None \<Rightarrow> defaultApproval r | Some a \<Rightarrow> a),
             blanketApprovalAllowed :=
               Some (case blanketApprovalAllowed llmMeta of None \<Rightarrow> False | Some b \<Rightarrow> b),
             destructive := Some (case destructive llmMeta of None \<Rightarrow> False | Some b \<Rightarrow> b)\<rparr>"

definition descriptor :: "x_llm_root \<Rightarrow> operation \<Rightarrow> operation" where
  "descriptor r op = op\<lparr>x_llm := map_option (with_defaults r) (x_llm op)\<rparr>"

text \<open>
  Modelled from the spec: \<^verbatim>\<open>parseSpec\<close> (section 4.3), which is not among
  the source files. Its argument is what the fetch of the document gave: an error of
  the Fetch Guard or of decoding, or the document. A document without a root
  extension block fails with \<open>NoLlmExtension\<close>; otherwise the path and verb entries
  are walked in declaration order and the eligible ones are kept.
\<close>

definition parseSpec :: "error + openapi_document \<Rightarrow> error + parsed_spec" where
  "parseSpec fetched =
     (case fetched of
        Inl e \<Rightarrow> Inl e
      | Inr doc \<Rightarrow>
          (case root_x_llm doc of
             None \<Rightarrow> Inl NoLlmExtension
           | Some r \<Rightarrow>
               Inr \<lparr>spec_root = r,
                    operations = map (descriptor r) (filter eligible (entries doc))\<rparr>))"

text \<open>
  Modelled from the spec: the operations that \<^verbatim>\<open>getOperationsWithXLlm\<close>
  hands to the generator are those of the parsed document; a document that does not
  take part has none.
\<close>

definition parsedOperations :: "openapi_document \<Rightarrow> operation list" where
  "parsedOperations doc = (case parseSpec (Inr doc) of Inl e \<Rightarrow> [] | Inr ps \<Rightarrow> operations ps)"

subsection \<open>The Approval Mediator\<close>

datatype decision = ApproveOnce | ApproveAlways | DenyOnce | DenyAlways

datatype standing = AlwaysAllow | AlwaysDeny

fun approves :: "decision \<Rightarrow> bool" where
  "approves ApproveOnce = True"
| "approves ApproveAlways = True"
| "approves DenyOnce = False"
| "approves DenyAlways = False"

fun standing_of :: "decision \<Rightarrow> standing option" where
  "standing_of ApproveAlways = Some AlwaysAllow"
| "standing_of DenyAlways = Some AlwaysDeny"
| "standing_of ApproveOnce = None"
| "standing_of DenyOnce = None"

definition blanket_allowed :: "operation \<Rightarrow> bool" where
  "blanket_allowed op =
     (case x_llm op of
        None \<Rightarrow> False
      | Some llmMeta \<Rightarrow> (case blanketApprovalAllowed llmMeta of None \<Rightarrow> False | Some b \<Rightarrow> b))"

definition is_destructive :: "operation \<Rightarrow> bool" where
  "is_destructive op =
     (case x_llm op of
        None \<Rightarrow> False
      | Some llmMeta \<Rightarrow> (case destructive llmMeta of None \<Rightarrow> False | Some b \<Rightarrow> b))"

text \<open>
  A connection owns the standing decisions, keyed by operation id. The session adds a
  log of what left the client: consent prompts shown through the callback of the host,
  and calls of the endpoint.
\<close>

datatype event = ConsentPrompt string | EndpointCall string

record connection =
  baseUrl :: string
  credential :: tokens
  standingDecisions :: "string \<rightharpoonup> standing"

record session =
  conn :: connection
  trace :: "event list"

type_synonym consent_callback = "operation \<Rightarrow> params \<Rightarrow> bool \<Rightarrow> decision"

definition persist :: "operation \<Rightarrow> decision \<Rightarrow> connection \<Rightarrow> connection" where
  "persist op d c =
     (case standing_of d of
        None \<Rightarrow> c
      | Some st \<Rightarrow>
          if blanket_allowed op
          then c\<lparr>standingDecisions := (standingDecisions c)(operationId op \<mapsto> st)\<rparr>
          else c)"

text \<open>
  Modelled from the spec: \<^verbatim>\<open>requestApproval\<close> (section 4.5), which the
  source calls and does not define. A standing entry for the operation id resolves the
  request with no prompt. Otherwise the operation, the parameters and the destructive
  flag go to the consent callback, and the decision is persisted only if its scope is
  always and blanket approval is allowed for the operation. The request resolves to
  whether the call is approved. One request is handled at a time; requests that run
  concurrently and requests that are cancelled are outside this model.
\<close>

definition requestApproval :: "consent_callback \<Rightarrow> session approval_helper" where
  "requestApproval callback op params s =
     (case standingDecisions (conn s) (operationId op) of
        Some AlwaysAllow \<Rightarrow> (Inr True, s)
      | Some AlwaysDeny \<Rightarrow> (Inr False, s)
      | None \<Rightarrow>
          (let d = callback op params (is_destructive op) in
           (Inr (approves d),
            s\<lparr>conn := persist op d (conn s),
              trace := trace s @ [ConsentPrompt (operationId op)]\<rparr>)))"

text \<open>The endpoint of the remote application answers a call; the call is logged.\<close>

type_synonym endpoint = "operation \<Rightarrow> params \<Rightarrow> tokens \<Rightarrow> error + response"

definition callEndpoint :: "endpoint \<Rightarrow> session fetch_helper" where
  "callEndpoint server op params tokens s =
     (server op params tokens, s\<lparr>trace := trace s @ [EndpointCall (operationId op)]\<rparr>)"

text \<open>
  A sequence of tool calls on one connection. Each call names its operation and
  parameters, and carries what the user would answer if asked and what the remote
  application would answer if called.
\<close>

record invocation =
  inv_op :: operation
  inv_params :: params
  inv_callback :: consent_callback
  inv_server :: endpoint

definition invoke :: "tokens \<Rightarrow> invocation \<Rightarrow> session \<Rightarrow> (error + outcome) \<times> session" where
  "invoke tokens i s =
     execute (requestApproval (inv_callback i)) (callEndpoint (inv_server i)) tokens
       (inv_op i) (inv_params i) s"

fun run :: "tokens \<Rightarrow> invocation list \<Rightarrow> session \<Rightarrow> session" where
  "run tokens [] s = s"
| "run tokens (i # rest) s = run tokens rest (snd (invoke tokens i s))"

subsection \<open>The example application of the notes\<close>

definition searchRecipes :: operation where
  "searchRecipes =
     \<lparr>operationId = ''searchRecipes'', http_verb = ''get'', path = ''/recipes/search'',
      summary = Some ''Search recipes by ingredients or cuisine'', parameters = ''{}'',
      x_llm = Some \<lparr>enabled = Some True, approval = Some Auto,
                    blanketApprovalAllowed = None, destructive = None,
                    rateLimit = Some \<lparr>max_calls = 30, window = ''1m''\<rparr>,
                    hint = Some ''Use when user asks to find or discover recipes'',
                    costIndicator = None\<rparr>\<rparr>"

definition addFavorite :: operation where
  "addFavorite =
     \<lparr>operationId = ''addFavorite'', http_verb = ''post'', path = ''/favorites'',
      summary = Some ''Save recipe to favorites'', parameters = ''{}'',
      x_llm = Some \<lparr>enabled = Some True, approval = Some PerCall,
                    blanketApprovalAllowed = Some True, destructive = None,
                    rateLimit = None,
                    hint = Some ''Use when user wants to save/bookmark a recipe'',
                    costIndicator = None\<rparr>\<rparr>"

definition deleteRecipe :: operation where
  "deleteRecipe =
     \<lparr>operationId = ''deleteRecipe'', http_verb = ''delete'', path = ''/recipes/:id'',
      summary = None, parameters = ''{}'',
      x_llm = Some \<lparr>enabled = Some True, approval = Some PerCall,
                    blanketApprovalAllowed = Some False, destructive = Some True,
                    rateLimit = None, hint = None, costIndicator = None\<rparr>\<rparr>"

definition recipeRoot :: x_llm_root where
  "recipeRoot =
     \<lparr>version = ''0.1'', name = ''RecipeApp'',
      description = ''Save, organize, and discover recipes'', defaultApproval = PerCall\<rparr>"

definition recipeApp :: openapi_document where
  "recipeApp = \<lparr>root_x_llm = Some recipeRoot,
                entries = [searchRecipes, addFavorite, deleteRecipe]\<rparr>"

text \<open>A fresh session on the example application, a user who answers the same to
  every prompt, and a remote application that answers every call alike.\<close>

definition freshSession :: session where
  "freshSession =
     \<lparr>conn = \<lparr>baseUrl = ''https://recipes.app'', credential = ''key'',
               standingDecisions = Map.empty\<rparr>,
      trace = []\<rparr>"

definition answering :: "decision \<Rightarrow> consent_callback" where
  "answering d op params destr = d"

definition replying :: "response \<Rightarrow> endpoint" where
  "replying r op params tokens = Inr r"

text \<open>The same interface served by a second application under another name.\<close>

definition cookbookApp :: openapi_document where
  "cookbookApp = recipeApp\<lparr>root_x_llm := Some (recipeRoot\<lparr>name := ''Cookbook''\<rparr>)\<rparr>"

text \<open>Operations that a document declares without exposing them: one without an
  extension block, one whose block lacks the flag, one whose block sets it to false.\<close>

definition healthCheck :: operation where
  "healthCheck =
     \<lparr>operationId = ''healthCheck'', http_verb = ''get'', path = ''/health'',
      summary = Some ''Liveness probe'', parameters = ''{}'', x_llm = None\<rparr>"

definition importRecipes :: operation where
  "importRecipes =
     \<lparr>operationId = ''importRecipes'', http_verb = ''post'', path = ''/recipes/import'',
      summary = Some ''Bulk import'', parameters = ''{}'',
      x_llm = Some \<lparr>enabled = None, approval = Some PerCall,
                    blanketApprovalAllowed = None, destructive = None,
                    rateLimit = None, hint = None, costIndicator = None\<rparr>\<rparr>"

definition purgeRecipes :: operation where
  "purgeRecipes =
     \<lparr>operationId = ''purgeRecipes'', http_verb = ''delete'', path = ''/recipes'',
      summary = Some ''Delete everything'', parameters = ''{}'',
      x_llm = Some \<lparr>enabled = Some False, approval = Some PerCall,
                    blanketApprovalAllowed = Some False, destructive = Some True,
                    rateLimit = None, hint = None, costIndicator = None\<rparr>\<rparr>"

definition partlyExposedApp :: openapi_document where
  "partlyExposedApp =
     \<lparr>root_x_llm = Some recipeRoot,
      entries = [healthCheck, searchRecipes, importRecipes, purgeRecipes]\<rparr>"

text \<open>Helpers without state, for running \<^verbatim>\<open>execute\<close> on its own: an approval
  helper that never approves and a fetch helper that always answers.\<close>

definition refusing :: "unit approval_helper" where
  "refusing op params s = (Inr False, s)"

definition serving :: "response \<Rightarrow> unit fetch_helper" where
  "serving r op params tokens s = (Inr r, s)"

text \<open>Two calls of the operation that saves a favourite: the user answers the first
  prompt with approve-always, and would deny a second one.\<close>

definition saveOnce :: invocation where
  "saveOnce =
     \<lparr>inv_op = addFavorite, inv_params = [(''recipeId'', ''42'')],
      inv_callback = answering ApproveAlways, inv_server = replying ''saved''\<rparr>"

definition saveAgain :: invocation where
  "saveAgain = saveOnce\<lparr>inv_callback := answering DenyOnce\<rparr>"

section \<open>Properties of the tool generator\<close>

subsection \<open>Tool names\<close>

lemma foldl_upd_map_of:
  "foldl (\<lambda>m (k, v). m(k \<mapsto> v)) m es = m ++ map_of (rev es)"
  by (induction es arbitrary: m) (auto simp: map_add_upd_left)

lemma fromEntries_map_of: "fromEntries es = map_of (rev es)"
  by (simp add: fromEntries_def foldl_upd_map_of)

lemma dom_fromEntries: "dom (fromEntries es) = fst ` set es"
  by (simp add: fromEntries_map_of dom_map_of_conv_image_fst)

lemma dom_toolsFromOpenAPI:
  "dom (toolsFromOpenAPI getOps j ra fe spec tokens) = operationId ` set (getOps spec)"
  by (simp add: toolsFromOpenAPI_def Let_def dom_fromEntries image_image)

lemma toolsFromOpenAPI_SomeD:
  assumes "toolsFromOpenAPI getOps j ra fe spec tokens k = Some t"
  shows "\<exists>op \<in> set (getOps spec). operationId op = k \<and> tool_description t = describe op
           \<and> tool_execute t = execute ra fe tokens op"
proof -
  let ?mk = "\<lambda>op. (operationId op,
                    \<lparr>tool_description = describe op, tool_parameters = j (parameters op),
                     tool_execute = execute ra fe tokens op\<rparr>)"
  have "map_of (rev (map ?mk (getOps spec))) k = Some t"
    using assms by (simp add: toolsFromOpenAPI_def Let_def fromEntries_map_of)
  then have "(k, t) \<in> set (map ?mk (getOps spec))"
    using map_of_SomeD by fastforce
  then show ?thesis by auto
qed

lemma parsed_recipeApp:
  "map operationId (parsedOperations recipeApp) = [''searchRecipes'', ''addFavorite'', ''deleteRecipe'']"
  by (simp add: parsedOperations_def parseSpec_def recipeApp_def eligible_def
      searchRecipes_def addFavorite_def deleteRecipe_def descriptor_def)

lemma parsed_cookbookApp:
  "map operationId (parsedOperations cookbookApp) = [''searchRecipes'', ''addFavorite'', ''deleteRecipe'']"
  by (simp add: cookbookApp_def parsedOperations_def parseSpec_def recipeApp_def eligible_def
      searchRecipes_def addFavorite_def deleteRecipe_def descriptor_def)

text \<open>
  Claim C8, as the generator has it. The generator makes its tools from the operations
  that \<^verbatim>\<open>getOperationsWithXLlm\<close> returns for a document, each with an
  operation id. The name of a generated tool is the operation id of its operation and
  nothing else: the names of the tools of a document are the operation ids of the
  operations returned for it, every tool is the tool of a returned operation with
  that id, and the tools of two documents share exactly the names that are operation
  ids of operations returned for both, whatever the root blocks say. The root name
  takes no part.
\<close>

theorem tool_names_are_operation_ids:
  "dom (toolsFromOpenAPI getOps j ra fe spec tokens) = operationId ` set (getOps spec)
   \<and> dom (toolsFromOpenAPI getOps j ra fe spec tokens)
         \<inter> dom (toolsFromOpenAPI getOps j' ra' fe' spec' tokens')
       = operationId ` set (getOps spec) \<inter> operationId ` set (getOps spec')
   \<and> (\<forall>k t. toolsFromOpenAPI getOps j ra fe spec tokens k = Some t \<longrightarrow>
          (\<exists>op \<in> set (getOps spec). operationId op = k \<and> tool_description t = describe op
              \<and> tool_execute t = execute ra fe tokens op))"
  using toolsFromOpenAPI_SomeD [of getOps j ra fe spec tokens]
  by (simp add: dom_toolsFromOpenAPI)

text \<open>
  Two documents with different root names and a common operation id: both tool sets
  hold a tool of that name.
\<close>

theorem tool_names_collide_across_roots:
  "map_option name (root_x_llm recipeApp) = Some ''RecipeApp''
   \<and> map_option name (root_x_llm cookbookApp) = Some ''Cookbook''
   \<and> ''searchRecipes'' \<in> dom (toolsFromOpenAPI parsedOperations id
         (requestApproval (answering ApproveOnce)) (callEndpoint (replying ''[]'')) recipeApp ''key1'')
   \<and> ''searchRecipes'' \<in> dom (toolsFromOpenAPI parsedOperations id
         (requestApproval (answering ApproveOnce)) (callEndpoint (replying ''[]'')) cookbookApp ''key2'')"
proof -
  have "''searchRecipes'' \<in> set (map operationId (parsedOperations recipeApp))"
    and "''searchRecipes'' \<in> set (map operationId (parsedOperations cookbookApp))"
    unfolding parsed_recipeApp parsed_cookbookApp by simp_all
  then show ?thesis
    by (simp add: dom_toolsFromOpenAPI recipeApp_def cookbookApp_def recipeRoot_def)
qed

theorem tool_names_are_operation_ids_witness:
  "dom (toolsFromOpenAPI parsedOperations id
         (requestApproval (answering ApproveOnce)) (callEndpoint (replying ''[]'')) recipeApp ''key1'')
     = {''searchRecipes'', ''addFavorite'', ''deleteRecipe''}
   \<and> map_option tool_description
        (toolsFromOpenAPI parsedOperations id
           (requestApproval (answering ApproveOnce)) (callEndpoint (replying ''[]'')) recipeApp ''key1''
           ''deleteRecipe'') = Some ''undefined''"
proof -
  let ?ra = "requestApproval (answering ApproveOnce)"
  let ?fe = "callEndpoint (replying ''[]'')"
  let ?tools = "toolsFromOpenAPI parsedOperations id ?ra ?fe recipeApp ''key1''"
  have inst: "dom ?tools = operationId ` set (parsedOperations recipeApp)
     \<and> (\<forall>k t. ?tools k = Some t \<longrightarrow>
          (\<exists>op \<in> set (parsedOperations recipeApp). operationId op = k
              \<and> tool_description t = describe op
              \<and> tool_execute t = execute ?ra ?fe ''key1'' op))"
    using tool_names_are_operation_ids [of parsedOperations id ?ra ?fe recipeApp "''key1''"]
    by blast
  have ids: "operationId ` set (parsedOperations recipeApp)
      = {''searchRecipes'', ''addFavorite'', ''deleteRecipe''}"
    using parsed_recipeApp by (metis image_set list.simps(15) empty_set)
  have names: "dom ?tools = {''searchRecipes'', ''addFavorite'', ''deleteRecipe''}"
    using inst ids by simp
  then obtain t where t: "?tools ''deleteRecipe'' = Some t"
    by blast
  then obtain op where op: "op \<in> set (parsedOperations recipeApp)"
      "operationId op = ''deleteRecipe''" "tool_description t = describe op"
    using inst by blast
  have "describe op = ''undefined''"
    using op(1,2)
    by (auto simp add: parsedOperations_def parseSpec_def recipeApp_def eligible_def
        searchRecipes_def addFavorite_def deleteRecipe_def descriptor_def describe_def
        with_defaults_def)
  then show ?thesis
    using names t op(3) by simp
qed

subsection \<open>The approval check of a call\<close>


lemma execute_per_call:
  "x_llm op = Some llmMeta \<Longrightarrow> approval llmMeta = Some PerCall \<Longrightarrow>
   execute ra fe tokens op params s =
     (case ra op params s of
        (Inl e, s') \<Rightarrow> (Inl e, s')
      | (Inr approved, s') \<Rightarrow>
          if approved then returned (fe op params tokens s') else (Inr Denied, s'))"
  by (auto simp: execute_def split: prod.splits sum.splits)




text \<open>
  Claim C3. When the decision on a call is deny-once or deny-always, so that the
  approval request resolves to not approved, \<^verbatim>\<open>execute\<close> resolves to the value
  \<^verbatim>\<open>{ denied: true }\<close>: a result, not an error. The state is the one the approval
  request left, whatever the fetch helper is: the endpoint is not called.
\<close>

theorem denial_is_a_result:
  assumes "x_llm op = Some llmMeta" and "approval llmMeta = Some PerCall"
    and "d = DenyOnce \<or> d = DenyAlways"
    and "ra op params s = (Inr (approves d), s')"
  shows "execute ra fe tokens op params s = (Inr Denied, s')"
proof -
  have "\<not> approves d"
    using assms(3) by auto
  then show ?thesis
    using assms(1,2,4) by (simp add: execute_per_call)
qed

theorem denial_is_a_result_witness:
  "execute (requestApproval (answering DenyAlways)) (callEndpoint (replying ''gone'')) ''key''
     deleteRecipe [(''id'', ''7'')] freshSession
   = (Inr Denied, freshSession\<lparr>trace := [ConsentPrompt ''deleteRecipe'']\<rparr>)"
proof -
  obtain llmMeta where m: "x_llm deleteRecipe = Some llmMeta" "approval llmMeta = Some PerCall"
    by (simp add: deleteRecipe_def)
  have d: "DenyAlways = DenyOnce \<or> DenyAlways = DenyAlways"
    by simp
  have ra: "requestApproval (answering DenyAlways) deleteRecipe [(''id'', ''7'')] freshSession
      = (Inr (approves DenyAlways), freshSession\<lparr>trace := [ConsentPrompt ''deleteRecipe'']\<rparr>)"
    by (simp add: requestApproval_def freshSession_def answering_def persist_def
        blanket_allowed_def deleteRecipe_def)
  show ?thesis
    using denial_is_a_result [where ra = "requestApproval (answering DenyAlways)"
        and op = deleteRecipe and params = "[(''id'', ''7'')]" and s = freshSession
        and d = DenyAlways and llmMeta = llmMeta] m d ra
    by blast
qed

subsection \<open>Eligible operations\<close>

lemma eligible_iff:
  "eligible op \<longleftrightarrow> (\<exists>llmMeta. x_llm op = Some llmMeta \<and> enabled llmMeta = Some True)"
  by (auto simp: eligible_def split: option.splits)

lemma eligible_descriptor: "eligible (descriptor r op) = eligible op"
  by (cases "x_llm op") (simp_all add: eligible_def descriptor_def with_defaults_def)

lemma operationId_descriptor: "operationId (descriptor r op) = operationId op"
  by (simp add: descriptor_def)

lemma parseSpec_InrD:
  assumes "parseSpec fetched = Inr ps"
  shows "\<exists>doc. fetched = Inr doc \<and> root_x_llm doc = Some (spec_root ps)
           \<and> operations ps = map (descriptor (spec_root ps)) (filter eligible (entries doc))"
  using assms by (auto simp: parseSpec_def split: sum.splits option.splits)

text \<open>
  Claim C1. For every parsed spec, the operations of the result are the declared
  operations whose own extension block sets enabled to true, and each of them yields a
  tool: every operation of the result carries the flag, every one is the descriptor of
  a declared operation, a declared operation is in the result exactly when its block
  sets the flag, and one without a block or without the flag is not. The names of the
  tools generated from the result are the operation ids of the enabled operations.
\<close>

theorem parsed_operations_are_enabled:
  assumes "parseSpec fetched = Inr ps"
  shows "\<exists>doc. fetched = Inr doc \<and> root_x_llm doc = Some (spec_root ps)
     \<and> (\<forall>d \<in> set (operations ps). \<exists>llmMeta. x_llm d = Some llmMeta \<and> enabled llmMeta = Some True)
     \<and> (\<forall>d \<in> set (operations ps). \<exists>op \<in> set (entries doc). d = descriptor (spec_root ps) op)
     \<and> (\<forall>op \<in> set (entries doc).
           descriptor (spec_root ps) op \<in> set (operations ps)
             \<longleftrightarrow> (\<exists>llmMeta. x_llm op = Some llmMeta \<and> enabled llmMeta = Some True))
     \<and> (\<forall>op \<in> set (entries doc).
           x_llm op = None \<or> (\<exists>llmMeta. x_llm op = Some llmMeta \<and> enabled llmMeta = None)
             \<longrightarrow> descriptor (spec_root ps) op \<notin> set (operations ps))
     \<and> dom (toolsFromOpenAPI (\<lambda>spec. operations ps) j ra fe doc tokens)
          = operationId ` {op \<in> set (entries doc).
               \<exists>llmMeta. x_llm op = Some llmMeta \<and> enabled llmMeta = Some True}"
proof -
  obtain doc where doc: "fetched = Inr doc" "root_x_llm doc = Some (spec_root ps)"
    and ops: "operations ps = map (descriptor (spec_root ps)) (filter eligible (entries doc))"
    using parseSpec_InrD [OF assms] by blast
  let ?r = "spec_root ps"
  have all_eligible: "\<And>d. d \<in> set (operations ps) \<Longrightarrow> eligible d"
    unfolding ops by (auto simp: eligible_descriptor)
  have a: "\<forall>d \<in> set (operations ps). \<exists>llmMeta. x_llm d = Some llmMeta \<and> enabled llmMeta = Some True"
    using all_eligible by (simp add: eligible_iff)
  have b: "\<forall>d \<in> set (operations ps). \<exists>op \<in> set (entries doc). d = descriptor ?r op"
    unfolding ops by auto
  have iff: "descriptor ?r op \<in> set (operations ps) \<longleftrightarrow> eligible op"
    if "op \<in> set (entries doc)" for op
  proof
    assume "descriptor ?r op \<in> set (operations ps)"
    then show "eligible op"
      using all_eligible eligible_descriptor by blast
  next
    assume "eligible op"
    then show "descriptor ?r op \<in> set (operations ps)"
      unfolding ops using that by simp
  qed
  have c: "\<forall>op \<in> set (entries doc).
           descriptor ?r op \<in> set (operations ps)
             \<longleftrightarrow> (\<exists>llmMeta. x_llm op = Some llmMeta \<and> enabled llmMeta = Some True)"
    using iff by (simp add: eligible_iff)
  have d: "\<forall>op \<in> set (entries doc).
           x_llm op = None \<or> (\<exists>llmMeta. x_llm op = Some llmMeta \<and> enabled llmMeta = None)
             \<longrightarrow> descriptor ?r op \<notin> set (operations ps)"
    using c by auto
  have "operationId ` set (operations ps) = operationId ` {op \<in> set (entries doc). eligible op}"
    unfolding ops by (auto simp: operationId_descriptor image_iff)
  then have e: "dom (toolsFromOpenAPI (\<lambda>spec. operations ps) j ra fe doc tokens)
          = operationId ` {op \<in> set (entries doc).
               \<exists>llmMeta. x_llm op = Some llmMeta \<and> enabled llmMeta = Some True}"
    by (simp add: dom_toolsFromOpenAPI eligible_iff)
  show ?thesis
    using doc a b c d e by blast
qed

theorem parsed_operations_are_enabled_witness:
  "parseSpec (Inr partlyExposedApp)
     = Inr \<lparr>spec_root = recipeRoot, operations = [descriptor recipeRoot searchRecipes]\<rparr>
   \<and> descriptor recipeRoot healthCheck \<noteq> descriptor recipeRoot searchRecipes
   \<and> descriptor recipeRoot importRecipes \<noteq> descriptor recipeRoot searchRecipes
   \<and> descriptor recipeRoot purgeRecipes \<noteq> descriptor recipeRoot searchRecipes
   \<and> dom (toolsFromOpenAPI parsedOperations id refusing (serving ''[]'') partlyExposedApp ''key'')
       = {''searchRecipes''}"
proof -
  define ps0 where "ps0 = \<lparr>spec_root = recipeRoot, operations = [descriptor recipeRoot searchRecipes]\<rparr>"
  have parsed: "parseSpec (Inr partlyExposedApp) = Inr ps0"
    by (simp add: ps0_def parseSpec_def partlyExposedApp_def eligible_def healthCheck_def
        searchRecipes_def importRecipes_def purgeRecipes_def)
  obtain doc where doc: "Inr partlyExposedApp = (Inr doc :: error + openapi_document)"
    and absent: "\<forall>op \<in> set (entries doc).
           x_llm op = None \<or> (\<exists>llmMeta. x_llm op = Some llmMeta \<and> enabled llmMeta = None)
             \<longrightarrow> descriptor (spec_root ps0) op \<notin> set (operations ps0)"
    and present: "\<forall>op \<in> set (entries doc).
           descriptor (spec_root ps0) op \<in> set (operations ps0)
             \<longleftrightarrow> (\<exists>llmMeta. x_llm op = Some llmMeta \<and> enabled llmMeta = Some True)"
    and names: "dom (toolsFromOpenAPI (\<lambda>spec. operations ps0) id refusing (serving ''[]'') doc ''key'')
          = operationId ` {op \<in> set (entries doc).
               \<exists>llmMeta. x_llm op = Some llmMeta \<and> enabled llmMeta = Some True}"
    using parsed_operations_are_enabled [OF parsed, of id refusing "serving ''[]''" "''key''"]
    by (elim exE conjE)
  have eq: "doc = partlyExposedApp"
    using doc by simp
  have sel: "spec_root ps0 = recipeRoot" "set (operations ps0) = {descriptor recipeRoot searchRecipes}"
    by (simp_all add: ps0_def)
  have "healthCheck \<in> set (entries doc)" and "x_llm healthCheck = None"
    unfolding eq by (simp_all add: partlyExposedApp_def healthCheck_def)
  then have out1: "descriptor recipeRoot healthCheck \<noteq> descriptor recipeRoot searchRecipes"
    using absent sel by (metis singletonI)
  have "importRecipes \<in> set (entries doc)"
    and "\<exists>llmMeta. x_llm importRecipes = Some llmMeta \<and> enabled llmMeta = None"
    unfolding eq by (simp_all add: partlyExposedApp_def importRecipes_def)
  then have out2: "descriptor recipeRoot importRecipes \<noteq> descriptor recipeRoot searchRecipes"
    using absent sel by (metis singletonI)
  have "purgeRecipes \<in> set (entries doc)"
    and "\<not> (\<exists>llmMeta. x_llm purgeRecipes = Some llmMeta \<and> enabled llmMeta = Some True)"
    unfolding eq by (simp_all add: partlyExposedApp_def purgeRecipes_def)
  then have out3: "descriptor recipeRoot purgeRecipes \<noteq> descriptor recipeRoot searchRecipes"
    using present sel by (metis singletonI)
  have exposed: "{op \<in> set (entries partlyExposedApp).
               \<exists>llmMeta. x_llm op = Some llmMeta \<and> enabled llmMeta = Some True} = {searchRecipes}"
    by (auto simp add: partlyExposedApp_def healthCheck_def
        searchRecipes_def importRecipes_def purgeRecipes_def)
  have "dom (toolsFromOpenAPI parsedOperations id refusing (serving ''[]'') partlyExposedApp ''key'')
      = dom (toolsFromOpenAPI (\<lambda>spec. operations ps0) id refusing (serving ''[]'') doc ''key'')"
    unfolding eq by (simp add: dom_toolsFromOpenAPI parsedOperations_def parsed)
  also have "\<dots> = operationId ` {op \<in> set (entries partlyExposedApp).
               \<exists>llmMeta. x_llm op = Some llmMeta \<and> enabled llmMeta = Some True}"
    using names unfolding eq .
  also have "\<dots> = {''searchRecipes''}"
    unfolding exposed by (simp add: searchRecipes_def)
  finally show ?thesis
    using parsed out1 out2 out3 by (simp add: ps0_def)
qed

subsection \<open>Standing decisions\<close>

lemma requestApproval_allow:
  "standingDecisions (conn s) (operationId op) = Some AlwaysAllow \<Longrightarrow>
   requestApproval callback op params s = (Inr True, s)"
  by (simp add: requestApproval_def)

lemma requestApproval_standing:
  "standingDecisions (conn s) (operationId op) = Some st \<Longrightarrow>
   snd (requestApproval callback op params s) = s"
  by (cases st) (simp_all add: requestApproval_def)

lemma requestApproval_prompt:
  "standingDecisions (conn s) (operationId op) = None \<Longrightarrow>
   requestApproval callback op params s =
     (Inr (approves (callback op params (is_destructive op))),
      s\<lparr>conn := persist op (callback op params (is_destructive op)) (conn s),
        trace := trace s @ [ConsentPrompt (operationId op)]\<rparr>)"
  by (simp add: requestApproval_def Let_def)

text \<open>The session after a call: either the approval request was not made or found a
  standing entry, and only endpoint calls were logged; or the user was asked.\<close>

lemma execute_session:
  fixes s :: session and op :: operation
  defines "k \<equiv> operationId op"
  shows "(\<exists>evs. snd (execute (requestApproval callback) (callEndpoint server) tokens op params s)
             = s\<lparr>trace := trace s @ evs\<rparr> \<and> ConsentPrompt k \<notin> set evs \<and> set evs \<subseteq> {EndpointCall k})
       \<or> (standingDecisions (conn s) k = None
          \<and> (\<exists>evs. snd (execute (requestApproval callback) (callEndpoint server) tokens op params s)
             = s\<lparr>conn := persist op (callback op params (is_destructive op)) (conn s),
                 trace := trace s @ ConsentPrompt k # evs\<rparr> \<and> set evs \<subseteq> {EndpointCall k}))"
proof (cases "x_llm op")
  case None
  then have "snd (execute (requestApproval callback) (callEndpoint server) tokens op params s)
      = s\<lparr>trace := trace s @ []\<rparr>"
    by (simp add: execute_def)
  then show ?thesis by (intro disjI1 exI [of _ "[]"]) simp
next
  case (Some llmMeta)
  show ?thesis
  proof (cases "approval llmMeta = Some PerCall")
    case False
    then have "snd (execute (requestApproval callback) (callEndpoint server) tokens op params s)
      = s\<lparr>trace := trace s @ [EndpointCall k]\<rparr>"
      using Some by (simp add: execute_def callEndpoint_def returned_def k_def split: sum.splits)
    then show ?thesis by (intro disjI1 exI [of _ "[EndpointCall k]"]) simp
  next
    case True
    note per_call = execute_per_call [OF Some True, of "requestApproval callback" "callEndpoint server" tokens params s]
    show ?thesis
    proof (cases "standingDecisions (conn s) k")
      case None
      let ?d = "callback op params (is_destructive op)"
      let ?s1 = "s\<lparr>conn := persist op ?d (conn s), trace := trace s @ [ConsentPrompt k]\<rparr>"
      have ra: "requestApproval callback op params s = (Inr (approves ?d), ?s1)"
        using None by (simp add: requestApproval_prompt k_def)
      show ?thesis
      proof (cases "approves ?d")
        case True
        then have "snd (execute (requestApproval callback) (callEndpoint server) tokens op params s)
          = s\<lparr>conn := persist op ?d (conn s), trace := trace s @ ConsentPrompt k # [EndpointCall k]\<rparr>"
          using per_call ra by (simp add: callEndpoint_def returned_def k_def split: sum.splits)
        then show ?thesis
          using None by (intro disjI2 conjI exI [of _ "[EndpointCall k]"]) simp_all
      next
        case False
        then have "snd (execute (requestApproval callback) (callEndpoint server) tokens op params s)
          = s\<lparr>conn := persist op ?d (conn s), trace := trace s @ ConsentPrompt k # []\<rparr>"
          using per_call ra by simp
        then show ?thesis
          using None by (intro disjI2 conjI exI [of _ "[]"]) simp_all
      qed
    next
      case (Some st)
      then have ra: "requestApproval callback op params s = (Inr (st = AlwaysAllow), s)"
        by (cases st) (simp_all add: requestApproval_def k_def)
      show ?thesis
      proof (cases "st = AlwaysAllow")
        case True
        then have "snd (execute (requestApproval callback) (callEndpoint server) tokens op params s)
          = s\<lparr>trace := trace s @ [EndpointCall k]\<rparr>"
          using per_call ra by (simp add: callEndpoint_def returned_def k_def split: sum.splits)
        then show ?thesis by (intro disjI1 exI [of _ "[EndpointCall k]"]) simp
      next
        case False
        then have "snd (execute (requestApproval callback) (callEndpoint server) tokens op params s)
          = s\<lparr>trace := trace s @ []\<rparr>"
          using per_call ra by simp
        then show ?thesis by (intro disjI1 exI [of _ "[]"]) simp
      qed
    qed
  qed
qed


lemma standing_persist:
  "standingDecisions (persist op d c) k =
     (if k = operationId op \<and> blanket_allowed op \<and> standing_of d \<noteq> None
      then standing_of d else standingDecisions c k)"
  by (auto simp: persist_def split: option.splits)

lemma invoke_session:
  "(\<exists>evs. snd (invoke tokens i s) = s\<lparr>trace := trace s @ evs\<rparr>
        \<and> ConsentPrompt (operationId (inv_op i)) \<notin> set evs
        \<and> set evs \<subseteq> {EndpointCall (operationId (inv_op i))})
   \<or> (standingDecisions (conn s) (operationId (inv_op i)) = None
      \<and> (\<exists>evs. snd (invoke tokens i s)
             = s\<lparr>conn := persist (inv_op i)
                   (inv_callback i (inv_op i) (inv_params i) (is_destructive (inv_op i))) (conn s),
                 trace := trace s @ ConsentPrompt (operationId (inv_op i)) # evs\<rparr>
           \<and> set evs \<subseteq> {EndpointCall (operationId (inv_op i))}))"
  unfolding invoke_def by (rule execute_session)

lemma invoke_keeps:
  assumes "standingDecisions (conn s) k = Some st"
  shows "standingDecisions (conn (snd (invoke tokens i s))) k = Some st"
  using invoke_session [of tokens i s] assms
  by (auto simp: standing_persist)

lemma invoke_no_prompt:
  assumes "standingDecisions (conn s) k = Some st"
  shows "\<exists>evs. trace (snd (invoke tokens i s)) = trace s @ evs \<and> ConsentPrompt k \<notin> set evs"
  using invoke_session [of tokens i s] assms
  by (elim disjE exE conjE) (auto simp del: append_assoc)

lemma invoke_change:
  assumes "standingDecisions (conn (snd (invoke tokens i s))) k \<noteq> standingDecisions (conn s) k"
  shows "k = operationId (inv_op i) \<and> blanket_allowed (inv_op i)
       \<and> standingDecisions (conn s) k = None
       \<and> standing_of (inv_callback i (inv_op i) (inv_params i) (is_destructive (inv_op i)))
           = standingDecisions (conn (snd (invoke tokens i s))) k"
  using invoke_session [of tokens i s] assms
  by (elim disjE exE conjE) (auto simp: standing_persist split: if_splits)

lemma run_keeps:
  "standingDecisions (conn s) k = Some st \<Longrightarrow>
   standingDecisions (conn (run tokens calls s)) k = Some st"
  by (induction calls arbitrary: s) (simp_all add: invoke_keeps)

lemma run_no_prompt:
  "standingDecisions (conn s) k = Some st \<Longrightarrow>
   \<exists>evs. trace (run tokens calls s) = trace s @ evs \<and> ConsentPrompt k \<notin> set evs"
proof (induction calls arbitrary: s)
  case Nil
  then show ?case by simp
next
  case (Cons i rest)
  let ?s1 = "snd (invoke tokens i s)"
  obtain evs1 where e1: "trace ?s1 = trace s @ evs1" "ConsentPrompt k \<notin> set evs1"
    using invoke_no_prompt [OF Cons.prems] by blast
  have "standingDecisions (conn ?s1) k = Some st"
    using Cons.prems by (rule invoke_keeps)
  then obtain evs2 where e2: "trace (run tokens rest ?s1) = trace ?s1 @ evs2"
      "ConsentPrompt k \<notin> set evs2"
    using Cons.IH by blast
  have "trace (run tokens (i # rest) s) = trace s @ (evs1 @ evs2)"
    using e1 e2 by simp
  moreover have "ConsentPrompt k \<notin> set (evs1 @ evs2)"
    using e1 e2 by simp
  ultimately show ?case by blast
qed

lemma standing_of_always:
  "standing_of d = Some st \<Longrightarrow> d = ApproveAlways \<or> d = DenyAlways"
  by (cases d) simp_all

lemma run_change:
  "standingDecisions (conn (run tokens calls s)) k \<noteq> standingDecisions (conn s) k \<Longrightarrow>
   \<exists>i \<in> set calls. operationId (inv_op i) = k \<and> blanket_allowed (inv_op i)
      \<and> standing_of (inv_callback i (inv_op i) (inv_params i) (is_destructive (inv_op i)))
           = standingDecisions (conn (run tokens calls s)) k"
proof (induction calls arbitrary: s)
  case Nil
  then show ?case by simp
next
  case (Cons i rest)
  let ?s1 = "snd (invoke tokens i s)"
  show ?case
  proof (cases "standingDecisions (conn (run tokens rest ?s1)) k = standingDecisions (conn ?s1) k")
    case True
    then have "standingDecisions (conn ?s1) k \<noteq> standingDecisions (conn s) k"
      using Cons.prems by simp
    then have "k = operationId (inv_op i) \<and> blanket_allowed (inv_op i)
       \<and> standing_of (inv_callback i (inv_op i) (inv_params i) (is_destructive (inv_op i)))
           = standingDecisions (conn ?s1) k"
      using invoke_change by blast
    then show ?thesis
      using True by simp
  next
    case False
    then obtain j where "j \<in> set rest" "operationId (inv_op j) = k" "blanket_allowed (inv_op j)"
      "standing_of (inv_callback j (inv_op j) (inv_params j) (is_destructive (inv_op j)))
           = standingDecisions (conn (run tokens rest ?s1)) k"
      using Cons.IH [of ?s1] by blast
    then show ?thesis by auto
  qed
qed

text \<open>
  Claim C4. Once the standing decisions of a connection hold an always-allow entry
  for the operation id of an operation, the approval request for that operation
  resolves at once to approved, leaving the session as it is, and the entry stays
  whatever calls follow on the connection: the events that any sequence of calls adds
  to the log contain no consent prompt for that operation.
\<close>

theorem standing_allow_never_prompts:
  assumes "standingDecisions (conn s) (operationId op) = Some AlwaysAllow"
  shows "requestApproval callback op params s = (Inr True, s)
       \<and> standingDecisions (conn (run tokens calls s)) (operationId op) = Some AlwaysAllow
       \<and> (\<exists>evs. trace (run tokens calls s) = trace s @ evs
              \<and> ConsentPrompt (operationId op) \<notin> set evs)"
  using assms requestApproval_allow [of s op callback params]
    run_keeps [of s "operationId op" AlwaysAllow tokens calls]
    run_no_prompt [of s "operationId op" AlwaysAllow tokens calls]
  by simp

text \<open>
  Claim C5. Whenever a call changes the entry of the standing decisions under some
  operation id, there was no entry, the call is one of an operation with that id for
  which blanket approval is allowed, the decision of the user on it was approve-always
  or deny-always, and the new entry is the one of that decision. So every entry that a
  sequence of calls writes comes from such a decision of one of its calls. For an operation for which blanket approval is not allowed an
  approval request leaves the connection unchanged; in particular, when the user is
  asked and answers approve-always, the call is approved and the standing decisions
  still hold no entry for the operation.
\<close>

theorem standing_entries_provenance:
  "(standingDecisions (conn (snd (invoke tokens i s))) k \<noteq> standingDecisions (conn s) k \<longrightarrow>
      (\<exists>d. d = inv_callback i (inv_op i) (inv_params i) (is_destructive (inv_op i))
          \<and> (d = ApproveAlways \<or> d = DenyAlways)
          \<and> operationId (inv_op i) = k \<and> blanket_allowed (inv_op i)
          \<and> standingDecisions (conn s) k = None
          \<and> standingDecisions (conn (snd (invoke tokens i s))) k = standing_of d))
   \<and> (standingDecisions (conn (run tokens calls s)) k \<noteq> standingDecisions (conn s) k \<longrightarrow>
      (\<exists>i \<in> set calls. \<exists>d. d = inv_callback i (inv_op i) (inv_params i) (is_destructive (inv_op i))
          \<and> (d = ApproveAlways \<or> d = DenyAlways)
          \<and> operationId (inv_op i) = k \<and> blanket_allowed (inv_op i)
          \<and> standingDecisions (conn (run tokens calls s)) k = standing_of d))
   \<and> (\<not> blanket_allowed op \<longrightarrow>
        conn (snd (requestApproval callback op params s)) = conn s)
   \<and> (\<not> blanket_allowed op \<longrightarrow> standingDecisions (conn s) (operationId op) = None \<longrightarrow>
        callback op params (is_destructive op) = ApproveAlways \<longrightarrow>
          requestApproval callback op params s
            = (Inr True, s\<lparr>trace := trace s @ [ConsentPrompt (operationId op)]\<rparr>)
          \<and> standingDecisions (conn (snd (requestApproval callback op params s))) (operationId op)
              = None)"
proof -
  have step: "\<exists>d. d = inv_callback i (inv_op i) (inv_params i) (is_destructive (inv_op i))
          \<and> (d = ApproveAlways \<or> d = DenyAlways)
          \<and> operationId (inv_op i) = k \<and> blanket_allowed (inv_op i)
          \<and> standingDecisions (conn s) k = None
          \<and> standingDecisions (conn (snd (invoke tokens i s))) k = standing_of d"
    if changed: "standingDecisions (conn (snd (invoke tokens i s))) k \<noteq> standingDecisions (conn s) k"
  proof -
    let ?d = "inv_callback i (inv_op i) (inv_params i) (is_destructive (inv_op i))"
    have w: "k = operationId (inv_op i)" "blanket_allowed (inv_op i)"
      "standingDecisions (conn s) k = None"
      "standing_of ?d = standingDecisions (conn (snd (invoke tokens i s))) k"
      using invoke_change [OF changed] by blast+
    then obtain st where "standing_of ?d = Some st"
      using changed by (cases "standing_of ?d") auto
    then have "?d = ApproveAlways \<or> ?d = DenyAlways"
      by (rule standing_of_always)
    then show ?thesis
      using w(1) w(2) w(3) w(4) by auto
  qed
  have a: "\<exists>i \<in> set calls. \<exists>d. d = inv_callback i (inv_op i) (inv_params i) (is_destructive (inv_op i))
          \<and> (d = ApproveAlways \<or> d = DenyAlways)
          \<and> operationId (inv_op i) = k \<and> blanket_allowed (inv_op i)
          \<and> standingDecisions (conn (run tokens calls s)) k = standing_of d"
    if changed: "standingDecisions (conn (run tokens calls s)) k \<noteq> standingDecisions (conn s) k"
  proof -
    obtain i where i: "i \<in> set calls" "operationId (inv_op i) = k" "blanket_allowed (inv_op i)"
      "standing_of (inv_callback i (inv_op i) (inv_params i) (is_destructive (inv_op i)))
           = standingDecisions (conn (run tokens calls s)) k"
      using run_change [OF changed] by blast
    have "standingDecisions (conn (run tokens calls s)) k \<noteq> None"
    proof
      assume none: "standingDecisions (conn (run tokens calls s)) k = None"
      then obtain st where "standingDecisions (conn s) k = Some st"
        using changed by (cases "standingDecisions (conn s) k") auto
      then have "standingDecisions (conn (run tokens calls s)) k = Some st"
        by (rule run_keeps)
      then show False using none by simp
    qed
    then obtain st where "standing_of (inv_callback i (inv_op i) (inv_params i) (is_destructive (inv_op i))) = Some st"
      using i(4) by auto
    then have "inv_callback i (inv_op i) (inv_params i) (is_destructive (inv_op i)) = ApproveAlways
      \<or> inv_callback i (inv_op i) (inv_params i) (is_destructive (inv_op i)) = DenyAlways"
      by (rule standing_of_always)
    then show ?thesis
      using i by auto
  qed
  have persist_none: "persist op d c = c" if "\<not> blanket_allowed op" for d c
    using that by (simp add: persist_def split: option.splits)
  have b: "conn (snd (requestApproval callback op params s)) = conn s" if "\<not> blanket_allowed op"
  proof (cases "standingDecisions (conn s) (operationId op)")
    case None
    then show ?thesis
      using that by (simp add: requestApproval_prompt persist_none)
  next
    case (Some st)
    then show ?thesis by (simp add: requestApproval_standing)
  qed
  have c: "requestApproval callback op params s
            = (Inr True, s\<lparr>trace := trace s @ [ConsentPrompt (operationId op)]\<rparr>)
          \<and> standingDecisions (conn (snd (requestApproval callback op params s))) (operationId op)
              = None"
    if "\<not> blanket_allowed op" "standingDecisions (conn s) (operationId op) = None"
      "callback op params (is_destructive op) = ApproveAlways"
    using that by (simp add: requestApproval_prompt persist_none)
  show ?thesis
    using step a b c by blast
qed


lemma saveOnce_session:
  "run ''key'' [saveOnce] freshSession =
     \<lparr>conn = \<lparr>baseUrl = ''https://recipes.app'', credential = ''key'',
               standingDecisions = [''addFavorite'' \<mapsto> AlwaysAllow]\<rparr>,
      trace = [ConsentPrompt ''addFavorite'', EndpointCall ''addFavorite'']\<rparr>"
  by (simp add: invoke_def saveOnce_def addFavorite_def execute_def requestApproval_def
      freshSession_def answering_def persist_def blanket_allowed_def callEndpoint_def
      replying_def returned_def)

theorem standing_allow_never_prompts_witness:
  "standingDecisions (conn (run ''key'' [saveOnce] freshSession)) (operationId addFavorite)
     = Some AlwaysAllow
   \<and> requestApproval (answering DenyOnce) addFavorite [(''recipeId'', ''43'')]
         (run ''key'' [saveOnce] freshSession)
       = (Inr True, run ''key'' [saveOnce] freshSession)
   \<and> standingDecisions (conn (run ''key'' [saveAgain, saveAgain] (run ''key'' [saveOnce] freshSession)))
         (operationId addFavorite) = Some AlwaysAllow
   \<and> (\<exists>evs. trace (run ''key'' [saveAgain, saveAgain] (run ''key'' [saveOnce] freshSession))
               = trace (run ''key'' [saveOnce] freshSession) @ evs
            \<and> ConsentPrompt (operationId addFavorite) \<notin> set evs)"
proof -
  have h: "standingDecisions (conn (run ''key'' [saveOnce] freshSession)) (operationId addFavorite)
     = Some AlwaysAllow"
    unfolding saveOnce_session by (simp add: addFavorite_def)
  show ?thesis
    using h standing_allow_never_prompts [OF h, of "answering DenyOnce" "[(''recipeId'', ''43'')]"
        "''key''" "[saveAgain, saveAgain]"]
    by blast
qed

theorem standing_entries_provenance_witness:
  "\<not> blanket_allowed deleteRecipe
   \<and> standingDecisions (conn freshSession) (operationId deleteRecipe) = None
   \<and> answering ApproveAlways deleteRecipe [(''id'', ''7'')] (is_destructive deleteRecipe) = ApproveAlways
   \<and> requestApproval (answering ApproveAlways) deleteRecipe [(''id'', ''7'')] freshSession
       = (Inr True, freshSession\<lparr>trace := trace freshSession @ [ConsentPrompt (operationId deleteRecipe)]\<rparr>)
   \<and> conn (snd (requestApproval (answering ApproveAlways) deleteRecipe [(''id'', ''7'')] freshSession))
       = conn freshSession
   \<and> standingDecisions (conn (run ''key'' [saveOnce] freshSession)) ''addFavorite''
       \<noteq> standingDecisions (conn freshSession) ''addFavorite''
   \<and> (\<exists>i \<in> set [saveOnce]. \<exists>d.
          d = inv_callback i (inv_op i) (inv_params i) (is_destructive (inv_op i))
          \<and> (d = ApproveAlways \<or> d = DenyAlways)
          \<and> operationId (inv_op i) = ''addFavorite'' \<and> blanket_allowed (inv_op i)
          \<and> standingDecisions (conn (run ''key'' [saveOnce] freshSession)) ''addFavorite''
              = standing_of d)"
proof -
  have h1: "\<not> blanket_allowed deleteRecipe"
    by (simp add: blanket_allowed_def deleteRecipe_def)
  have h2: "standingDecisions (conn freshSession) (operationId deleteRecipe) = None"
    by (simp add: freshSession_def)
  have h3: "answering ApproveAlways deleteRecipe [(''id'', ''7'')] (is_destructive deleteRecipe)
      = ApproveAlways"
    by (simp add: answering_def)
  have h4: "standingDecisions (conn (run ''key'' [saveOnce] freshSession)) ''addFavorite''
       \<noteq> standingDecisions (conn freshSession) ''addFavorite''"
    unfolding saveOnce_session by (simp add: freshSession_def)
  show ?thesis
    using h1 h2 h3 h4
      standing_entries_provenance [where tokens = "''key''" and calls = "[saveOnce]"
        and s = freshSession and k = "''addFavorite''" and op = deleteRecipe
        and callback = "answering ApproveAlways" and params = "[(''id'', ''7'')]"]
    by blast
qed

end
